theory Spec2Isabelle
  imports Main "HOL-Library.Word"
begin

section \<open>Strings of the host language\<close>

text \<open>
  A string is a list of UTF-16 code units, each a 16-bit word, so \<open>length\<close> counts what
  \<open>.length\<close> counts. \<open>js\<close> writes a string of code units below 256 as a literal.
\<close>

type_synonym code_unit = "16 word"

type_synonym jsstring = "code_unit list"

definition js :: "string \<Rightarrow> jsstring" where
  "js s = map of_char s"

definition isSpace :: "code_unit \<Rightarrow> bool" where
  \<comment> \<open>the class \<open>\s\<close>: TAB, LF, VT, FF, CR, SPACE, NBSP, U+1680, U+2000..U+200A,
      U+2028, U+2029, U+202F, U+205F, U+3000, U+FEFF\<close>
  "isSpace u =
     (u \<in> {9, 10, 11, 12, 13, 32, 160, 5760, 8232, 8233, 8239, 8287, 12288, 65279} \<or>
      (8192 \<le> u \<and> u \<le> 8202))"

definition punctuation :: jsstring where
  \<comment> \<open>the character class of the regular expression in lines 131 and 223\<close>
  "punctuation =
     map of_char
       [CHR ''.'', CHR '','', CHR ''/'', CHR ''#'', CHR ''!'', CHR ''$'', CHR ''%'', CHR ''^'',
        CHR ''&'', CHR ''*'', CHR '';'', CHR '':'', CHR ''{'', CHR ''}'', CHR ''='', CHR ''-'',
        CHR ''_'', CHR 0x60, CHR ''~'', CHR ''('', CHR '')'', CHR ''['', CHR '']'']"

definition isPunct :: "code_unit \<Rightarrow> bool" where
  "isPunct u = (u \<in> set punctuation)"

text \<open>
  \<open>s.toLowerCase()\<close>, one code unit at a time: the upper-case letters below U+0100 (A..Z, and
  U+00C0..U+00DE without U+00D7) move up by 32; U+0130, capital I with dot above, becomes
  the two code units U+0069 U+0307, so the result can be longer than the string; every other
  code unit is kept. This is what the host does on every string whose only code points
  changed by lower-casing are the ones named here; the other cased letters are not modelled.
\<close>

definition toLowerCase_unit :: "code_unit \<Rightarrow> jsstring" where
  "toLowerCase_unit u =
     (if (65 \<le> u \<and> u \<le> 90) \<or> (192 \<le> u \<and> u \<le> 222 \<and> u \<noteq> 215) then [u + 32]
      else if u = 304 then [105, 775]
      else [u])"

definition toLowerCase :: "jsstring \<Rightarrow> jsstring" where
  "toLowerCase s = concat (map toLowerCase_unit s)"

text \<open>
  \<open>word.replace(/^[P]*|[P]*$/g, '')\<close>: the first alternative matches at offset 0 only and
  takes the longest run of class characters there; the second matches at the first offset
  from which the rest of the string is class characters only. Both matches are deleted.
\<close>

definition stripPunctuation :: "jsstring \<Rightarrow> jsstring" where
  "stripPunctuation w = rev (dropWhile isPunct (rev (dropWhile isPunct w)))"

text \<open>
  \<open>s.split(/\s+/)\<close>: the pieces between the maximal runs of white space; a string that
  starts (ends) with white space gives a leading (trailing) empty piece, and the empty
  string gives one empty piece.
\<close>

function split_ws :: "jsstring \<Rightarrow> jsstring list" where
  "split_ws s =
     (let w = takeWhile (\<lambda>c. \<not> isSpace c) s;
          r = dropWhile (\<lambda>c. \<not> isSpace c) s
      in if r = [] then [w] else w # split_ws (dropWhile isSpace (tl r)))"
  by pat_completeness auto
termination
proof (relation "measure length")
  show "wf (measure length)" by simp
next
  fix s :: jsstring and w r
  assume r: "r = dropWhile (\<lambda>c. \<not> isSpace c) s" and ne: "r \<noteq> []"
  have "length (dropWhile isSpace (tl r)) \<le> length (tl r)"
    by (rule length_dropWhile_le)
  also have "\<dots> < length r" using ne by (cases r) simp_all
  also have "\<dots> \<le> length s" unfolding r by (rule length_dropWhile_le)
  finally show "(dropWhile isSpace (tl r), s) \<in> measure length" by simp
qed

declare split_ws.simps [simp del]

text \<open>\<open>s.indexOf(sub)\<close>: the offset of the first occurrence, -1 when there is none.\<close>

fun indexOf :: "jsstring \<Rightarrow> jsstring \<Rightarrow> int" where
  "indexOf [] sub = (if sub = [] then 0 else - 1)"
| "indexOf (c # cs) sub =
     (if take (length sub) (c # cs) = sub then 0
      else (let r = indexOf cs sub in if r < 0 then - 1 else 1 + r))"

definition includes_str :: "jsstring \<Rightarrow> jsstring \<Rightarrow> bool" where
  "includes_str s sub = (indexOf s sub \<noteq> - 1)"

text \<open>\<open>s.substring(start, fin)\<close>: both offsets are clipped to the string and ordered.\<close>

definition substring :: "jsstring \<Rightarrow> int \<Rightarrow> int \<Rightarrow> jsstring" where
  "substring s start fin =
     (let len = int (length s);
          a = max 0 (min start len);
          b = max 0 (min fin len);
          lo = min a b;
          hi = max a b
      in take (nat (hi - lo)) (drop (nat lo) s))"

section \<open>Data of the plugin\<close>

record MyPluginSettings =
  mySetting :: jsstring
  minWordLength :: int
  ignoredWords :: "jsstring list"
  caseSensitive :: bool
  scanOnLoad :: bool
  linkPrefix :: jsstring
  autoLinkEnabled :: bool

definition DEFAULT_SETTINGS :: MyPluginSettings where
  "DEFAULT_SETTINGS =
     \<lparr>mySetting = js ''default'', minWordLength = 3,
      ignoredWords = map js [''the'', ''and'', ''but'', ''for''], caseSensitive = False,
      scanOnLoad = True, linkPrefix = js ''[[]]'', autoLinkEnabled = True\<rparr>"

record EditorPosition =
  line :: nat
  ch :: nat

text \<open>An element of \<open>changeHistory\<close> (line 29); \<open>text'\<close> and \<open>file'\<close> are its fields \<open>text\<close> and \<open>file\<close>.\<close>

record change =
  text' :: jsstring
  position :: EditorPosition
  file' :: jsstring

text \<open>
  The active Markdown view: \<open>filePath\<close> is \<open>view.file?.path\<close> (\<open>None\<close> when the view has
  no file), \<open>editor\<close> is the document of the view's editor, one string per line. The editor
  handed to \<open>processLineForLinks\<close> is the editor of the active view.
\<close>

record MarkdownView =
  filePath :: "jsstring option"
  editor :: "jsstring list"

datatype notice =
  Linked jsstring jsstring
| Undid
| Scanned nat

record AutoLinkPlugin =
  settings :: MyPluginSettings
  linkCache :: "jsstring \<rightharpoonup> jsstring"
  changeHistory :: "change list"
  activeView :: "MarkdownView option"
  notices :: "notice list"

section \<open>The editor\<close>

text \<open>
  \<open>editor.replaceRange(replacement, from, to)\<close> for a span inside one line, which is how the
  plugin calls it, and a replacement without a line break (a word of \<open>split_ws\<close> has none).
  The editor belongs to the host application. Columns past the end of the line are clipped
  to it; a line outside the document leaves the document as it is. The theorems below use
  spans inside the document only.
\<close>

definition replaceRange ::
  "jsstring \<Rightarrow> EditorPosition \<Rightarrow> EditorPosition \<Rightarrow> jsstring list \<Rightarrow> jsstring list" where
  "replaceRange replacement from to doc =
     (if line from < length doc \<and> line to = line from
      then doc[line from :=
                 take (ch from) (doc ! line from) @ replacement @ drop (ch to) (doc ! line from)]
      else doc)"

section \<open>The term index\<close>

text \<open>Lines 131-132 and 223, 231: the cleaned word, and the key it is looked up or stored under.\<close>

definition normalize :: "bool \<Rightarrow> jsstring \<Rightarrow> jsstring" where
  "normalize cs word =
     (let cleanWord = stripPunctuation word
      in if cs then cleanWord else toLowerCase cleanWord)"

text \<open>The body of the \<open>forEach\<close> of \<open>updateLinkCache\<close> (lines 221-235).\<close>

definition cacheWord ::
  "MyPluginSettings \<Rightarrow> jsstring \<Rightarrow> jsstring \<Rightarrow> (jsstring \<rightharpoonup> jsstring) \<Rightarrow> (jsstring \<rightharpoonup> jsstring)" where
  "cacheWord cfg filePath' word cache =
     (let cleanWord = stripPunctuation word
      in if minWordLength cfg \<le> int (length cleanWord) \<and>
            toLowerCase cleanWord \<notin> set (ignoredWords cfg)
         then cache((if caseSensitive cfg then cleanWord else toLowerCase cleanWord) \<mapsto> filePath')
         else cache)"

definition updateLinkCache :: "jsstring \<Rightarrow> jsstring \<Rightarrow> AutoLinkPlugin \<Rightarrow> AutoLinkPlugin" where
  "updateLinkCache content filePath' s =
     s\<lparr>linkCache := fold (cacheWord (settings s) filePath') (split_ws content) (linkCache s)\<rparr>"

text \<open>
  \<open>scanVaultForLinks\<close> (lines 93-101). The vault is the host's: \<open>files\<close> is what
  \<open>getMarkdownFiles\<close> returns, each file as its path and the text \<open>read\<close> returns for it.
\<close>

definition scanVaultForLinks :: "(jsstring \<times> jsstring) list \<Rightarrow> AutoLinkPlugin \<Rightarrow> AutoLinkPlugin" where
  "scanVaultForLinks files s =
     (let s' = fold (\<lambda>f. updateLinkCache (snd f) (fst f)) files s
      in s'\<lparr>notices := notices s' @ [Scanned (length files)]\<rparr>)"

section \<open>Matching and rewriting\<close>

record link_match =
  rawWord :: jsstring
  owner :: jsstring
  startPos :: EditorPosition
  endPos :: EditorPosition

text \<open>
  Lines 130-154 for one word of the line: the filters, the lookup, and the span. \<open>owner\<close> is
  \<open>linkedFilePath\<close>; an empty path is falsy, as an absent one is.
\<close>

definition matchWord ::
  "MyPluginSettings \<Rightarrow> (jsstring \<rightharpoonup> jsstring) \<Rightarrow> jsstring \<Rightarrow> jsstring \<Rightarrow> nat \<Rightarrow> jsstring
     \<Rightarrow> link_match option" where
  "matchWord cfg cache currentFilePath lineText lineNumber word =
     (let cleanWord = stripPunctuation word;
          searchWord = (if caseSensitive cfg then cleanWord else toLowerCase cleanWord)
      in if minWordLength cfg \<le> int (length cleanWord) \<and> searchWord \<notin> set (ignoredWords cfg)
         then (case cache searchWord of
                 None \<Rightarrow> None
               | Some linkedFilePath \<Rightarrow>
                   if linkedFilePath \<noteq> [] \<and> linkedFilePath \<noteq> currentFilePath \<and>
                      \<not> includes_str word (js ''[['') \<and> \<not> includes_str word (js '']]'')
                   then (let lineUpToWord = substring lineText 0 (indexOf lineText word)
                         in Some \<lparr>rawWord = word, owner = linkedFilePath,
                                  startPos = \<lparr>line = lineNumber, ch = length lineUpToWord\<rparr>,
                                  endPos = \<lparr>line = lineNumber,
                                            ch = length lineUpToWord + length word\<rparr>\<rparr>)
                   else None)
         else None)"

text \<open>The matches of a line, in the order of its words.\<close>

definition findMatches ::
  "MyPluginSettings \<Rightarrow> (jsstring \<rightharpoonup> jsstring) \<Rightarrow> jsstring \<Rightarrow> jsstring \<Rightarrow> nat \<Rightarrow> link_match list" where
  "findMatches cfg cache currentFilePath lineText lineNumber =
     List.map_filter (matchWord cfg cache currentFilePath lineText lineNumber) (split_ws lineText)"

text \<open>Lines 156-169: the history entry, the replacement, the notice.\<close>

definition applyMatch :: "jsstring \<Rightarrow> link_match \<Rightarrow> AutoLinkPlugin \<Rightarrow> AutoLinkPlugin" where
  "applyMatch currentFilePath m s =
     (let linkedText = js ''[['' @ rawWord m @ (js '']]'');
          s1 = s\<lparr>changeHistory := changeHistory s @
                  [\<lparr>text' = rawWord m, position = startPos m, file' = currentFilePath\<rparr>]\<rparr>;
          s2 = s1\<lparr>activeView :=
                  map_option (\<lambda>v. v\<lparr>editor := replaceRange linkedText (startPos m) (endPos m) (editor v)\<rparr>)
                    (activeView s1)\<rparr>
      in s2\<lparr>notices := notices s2 @ [Linked (rawWord m) (owner m)]\<rparr>)"

text \<open>The body of the loop over the words (lines 130-171).\<close>

definition linkWord :: "jsstring \<Rightarrow> jsstring \<Rightarrow> nat \<Rightarrow> jsstring \<Rightarrow> AutoLinkPlugin \<Rightarrow> AutoLinkPlugin" where
  "linkWord currentFilePath lineText lineNumber word s =
     (case matchWord (settings s) (linkCache s) currentFilePath lineText lineNumber word of
        None \<Rightarrow> s
      | Some m \<Rightarrow> applyMatch currentFilePath m s)"

definition processLineForLinks :: "jsstring \<Rightarrow> nat \<Rightarrow> AutoLinkPlugin \<Rightarrow> AutoLinkPlugin" where
  "processLineForLinks lineText lineNumber s =
     (let words = split_ws lineText
      in case activeView s of
           None \<Rightarrow> s
         | Some view \<Rightarrow>
             (case filePath view of
                None \<Rightarrow> s
              | Some currentFilePath \<Rightarrow>
                  if currentFilePath = [] then s
                  else fold (linkWord currentFilePath lineText lineNumber) words s))"

text \<open>\<open>undoLastLink\<close> (lines 183-203).\<close>

definition undoLastLink :: "AutoLinkPlugin \<Rightarrow> AutoLinkPlugin" where
  "undoLastLink s =
     (if changeHistory s = [] then s
      else
        (let lastChange = last (changeHistory s);
             s1 = s\<lparr>changeHistory := butlast (changeHistory s)\<rparr>
         in case activeView s1 of
              None \<Rightarrow> s1
            | Some view \<Rightarrow>
                if filePath view = Some (file' lastChange)
                then (let startPos' = position lastChange;
                          endPos' = \<lparr>line = line startPos',
                                     ch = ch startPos' + length (text' lastChange) + 4\<rparr>;
                          view' = view\<lparr>editor :=
                                    replaceRange (text' lastChange) startPos' endPos' (editor view)\<rparr>
                      in s1\<lparr>activeView := Some view', notices := notices s1 @ [Undid]\<rparr>)
                else s1))"

section \<open>Occurrences of a string in a string\<close>

text \<open>
  \<open>occursAt s sub i\<close>: the characters of \<open>s\<close> from offset \<open>i\<close> on start with \<open>sub\<close>.
  \<open>firstOccurrence s sub i\<close>: \<open>i\<close> is the least such offset.
\<close>

definition occursAt :: "jsstring \<Rightarrow> jsstring \<Rightarrow> nat \<Rightarrow> bool" where
  "occursAt s sub i = (i + length sub \<le> length s \<and> take (length sub) (drop i s) = sub)"

definition firstOccurrence :: "jsstring \<Rightarrow> jsstring \<Rightarrow> nat \<Rightarrow> bool" where
  "firstOccurrence s sub i = (occursAt s sub i \<and> (\<forall>j<i. \<not> occursAt s sub j))"

text \<open>What is seen of the active view: the path of its file, and the text of its editor.\<close>

definition activeFilePath :: "AutoLinkPlugin \<Rightarrow> jsstring option" where
  "activeFilePath s = (case activeView s of None \<Rightarrow> None | Some view \<Rightarrow> filePath view)"

definition activeEditor :: "AutoLinkPlugin \<Rightarrow> jsstring list option" where
  "activeEditor s = map_option editor (activeView s)"

section \<open>Terms of a document and reachable states\<close>

text \<open>
  The length and ignore filters of the index update (lines 226-227), on a word of the text:
  the length is the cleaned word's, before any lower-casing, and the ignore list is compared
  with the lower-cased cleaned word, whatever the case-sensitive flag.
\<close>

definition wordFilter :: "MyPluginSettings \<Rightarrow> jsstring \<Rightarrow> bool" where
  "wordFilter cfg word =
     (minWordLength cfg \<le> int (length (stripPunctuation word)) \<and>
      toLowerCase (stripPunctuation word) \<notin> set (ignoredWords cfg))"

text \<open>The same two filters read on a term, the key of the index, instead.\<close>

definition termFilter :: "MyPluginSettings \<Rightarrow> jsstring \<Rightarrow> bool" where
  "termFilter cfg t = (minWordLength cfg \<le> int (length t) \<and> toLowerCase t \<notin> set (ignoredWords cfg))"

text \<open>
  The terms the words of a text normalize to, and the terms the words of a text that pass
  the filters normalize to.
\<close>

definition docTerms :: "MyPluginSettings \<Rightarrow> jsstring \<Rightarrow> jsstring set" where
  "docTerms cfg content = normalize (caseSensitive cfg) ` set (split_ws content)"

definition indexedTerms :: "MyPluginSettings \<Rightarrow> jsstring \<Rightarrow> jsstring set" where
  "indexedTerms cfg content =
     set (map (normalize (caseSensitive cfg)) (filter (wordFilter cfg) (split_ws content)))"

text \<open>
  The states the plugin can be in: it starts with an empty history; a line is processed;
  the last link is undone; or anything else happens that leaves the history alone (a scan,
  an edit of the document, another view becoming active, a change of the settings).
\<close>

inductive reachable :: "AutoLinkPlugin \<Rightarrow> bool" where
  start: "changeHistory s = [] \<Longrightarrow> reachable s"
| rewrite: "reachable s \<Longrightarrow> reachable (processLineForLinks lineText lineNumber s)"
| undo: "reachable s \<Longrightarrow> reachable (undoLastLink s)"
| other: "reachable s \<Longrightarrow> changeHistory s' = changeHistory s \<Longrightarrow> reachable s'"

section \<open>Example states\<close>

text \<open>The plugin as loaded, with the document \<open>other.md\<close> open in the active view.\<close>

definition ex_loaded :: "jsstring list \<Rightarrow> AutoLinkPlugin" where
  "ex_loaded doc =
     \<lparr>settings = DEFAULT_SETTINGS, linkCache = Map.empty, changeHistory = [],
      activeView = Some \<lparr>filePath = Some (js ''other.md''), editor = doc\<rparr>, notices = []\<rparr>"

text \<open>After the scan of a vault that holds \<open>apple.md\<close> with the text \<open>The Banana Tree\<close>.\<close>

definition ex_indexed :: AutoLinkPlugin where
  "ex_indexed = scanVaultForLinks [(js ''apple.md'', js ''The Banana Tree'')] (ex_loaded [js ''I love banana bread''])"

text \<open>The match of the line \<open>I love banana bread\<close> on line 0, and of \<open>banana banana\<close> on line 3.\<close>

definition ex_match :: link_match where
  "ex_match = \<lparr>rawWord = js ''banana'', owner = js ''apple.md'',
               startPos = \<lparr>line = 0, ch = 7\<rparr>, endPos = \<lparr>line = 0, ch = 13\<rparr>\<rparr>"

definition ex_match_twice :: link_match where
  "ex_match_twice = \<lparr>rawWord = js ''banana'', owner = js ''apple.md'',
                     startPos = \<lparr>line = 3, ch = 0\<rparr>, endPos = \<lparr>line = 3, ch = 6\<rparr>\<rparr>"

text \<open>A vault of two documents, and the vault after \<open>apple.md\<close> was replaced by \<open>new.md\<close>.\<close>

definition ex_vault :: "(jsstring \<times> jsstring) list" where
  "ex_vault = [(js ''apple.md'', js ''The Banana Tree''), (js ''bread.md'', js ''banana bread, sliced'')]"

definition ex_vault_later :: "(jsstring \<times> jsstring) list" where
  "ex_vault_later = [(js ''new.md'', js ''apple pie'')]"

text \<open>The plugin with the case-sensitive flag set.\<close>

definition ex_sensitive :: AutoLinkPlugin where
  "ex_sensitive = (ex_loaded [])\<lparr>settings := DEFAULT_SETTINGS\<lparr>caseSensitive := True\<rparr>\<rparr>"

text \<open>
  The line \<open>I love banana bread\<close> of \<open>other.md\<close> processed, and then another document
  \<open>third.md\<close> made the active one.
\<close>

definition ex_linked :: AutoLinkPlugin where
  "ex_linked = processLineForLinks (js ''I love banana bread'') 0 ex_indexed"

definition ex_switched :: AutoLinkPlugin where
  "ex_switched = ex_linked\<lparr>activeView := Some \<lparr>filePath = Some (js ''third.md''), editor = [js ''hello'']\<rparr>\<rparr>"

text \<open>
  Both words of the line \<open>apple banana\<close> of \<open>other.md\<close> are indexed for \<open>fruit.md\<close>;
  \<open>ex_fruit_first\<close> is the state after the loop body has run on the first word.
\<close>

definition ex_fruit :: AutoLinkPlugin where
  "ex_fruit = scanVaultForLinks [(js ''fruit.md'', js ''apple banana'')] (ex_loaded [js ''apple banana''])"

definition ex_fruit_first :: AutoLinkPlugin where
  "ex_fruit_first = linkWord (js ''other.md'') (js ''apple banana'') 0 (js ''apple'') ex_fruit"

text \<open>The history entry of the match \<open>ex_match\<close>.\<close>

definition ex_entry :: change where
  "ex_entry = \<lparr>text' = js ''banana'', position = \<lparr>line = 0, ch = 7\<rparr>, file' = js ''other.md''\<rparr>"

text \<open>
  The word of the two code units U+0130 U+006C (capital I with dot above, small l), and
  what it normalizes to when the case-sensitive flag is off: U+0069 U+0307 U+006C.
\<close>

definition ex_dotted :: jsstring where
  "ex_dotted = [304, 108]"

definition ex_dotted_term :: jsstring where
  "ex_dotted_term = [105, 775, 108]"

section \<open>Normalization\<close>

lemma isPunct_code:
  "isPunct u \<longleftrightarrow>
   u \<in> {46,44,47,35,33,36,37,94,38,42,59,58,123,125,61,45,95,96,126,40,41,91,93}"
  by (simp add: isPunct_def punctuation_def)

text \<open>The tests on a code unit, read on its number: the equations used to evaluate them.\<close>

lemma isSpace_uint [code]:
  "isSpace u =
     (let k = uint u
      in k = 9 \<or> k = 10 \<or> k = 11 \<or> k = 12 \<or> k = 13 \<or> k = 32 \<or> k = 160 \<or> k = 5760 \<or>
         (8192 \<le> k \<and> k \<le> 8202) \<or> k = 8232 \<or> k = 8233 \<or> k = 8239 \<or> k = 8287 \<or>
         k = 12288 \<or> k = 65279)"
  by (auto simp: isSpace_def Let_def word_uint_eq_iff word_le_def)

lemma isPunct_uint [code]:
  "isPunct u =
     (let k = uint u
      in k = 46 \<or> k = 44 \<or> k = 47 \<or> k = 35 \<or> k = 33 \<or> k = 36 \<or> k = 37 \<or> k = 94 \<or>
         k = 38 \<or> k = 42 \<or> k = 59 \<or> k = 58 \<or> k = 123 \<or> k = 125 \<or> k = 61 \<or> k = 45 \<or>
         k = 95 \<or> k = 96 \<or> k = 126 \<or> k = 40 \<or> k = 41 \<or> k = 91 \<or> k = 93)"
  unfolding isPunct_code Let_def by (auto simp: word_uint_eq_iff)

lemma toLowerCase_unit_uint [code]:
  "toLowerCase_unit u =
     (let k = uint u
      in if (65 \<le> k \<and> k \<le> 90) \<or> (192 \<le> k \<and> k \<le> 222 \<and> k \<noteq> 215) then [u + 32]
         else if k = 304 then [105, 775]
         else [u])"
  by (auto simp: toLowerCase_unit_def Let_def word_uint_eq_iff word_le_def)






lemma toLowerCase_Nil [simp]: "toLowerCase [] = []"
  by (simp add: toLowerCase_def)













section \<open>Occurrences, \<open>indexOf\<close> and \<open>split_ws\<close>\<close>

lemma occursAt_Cons_Suc: "occursAt (c # cs) sub (Suc j) = occursAt cs sub j"
  by (simp add: occursAt_def)

lemma occursAt_0: "occursAt s sub 0 = (take (length sub) s = sub)"
  by (auto simp: occursAt_def) (metis length_take min_def nat_le_linear take_all)

lemma indexOf_range: "indexOf s sub = - 1 \<or> (0 \<le> indexOf s sub \<and> indexOf s sub \<le> int (length s))"
  by (induction s) (auto simp: Let_def)

lemma indexOf_first:
  "0 \<le> indexOf s sub \<Longrightarrow> firstOccurrence s sub (nat (indexOf s sub))"
proof (induction s)
  case Nil
  then show ?case by (auto simp: firstOccurrence_def occursAt_def split: if_splits)
next
  case (Cons c cs)
  show ?case
  proof (cases "take (length sub) (c # cs) = sub")
    case True
    then show ?thesis by (simp add: firstOccurrence_def occursAt_0)
  next
    case False
    with Cons.prems have r: "0 \<le> indexOf cs sub" and e: "indexOf (c # cs) sub = 1 + indexOf cs sub"
      by (auto simp: Let_def split: if_splits)
    from Cons.IH[OF r] have f: "firstOccurrence cs sub (nat (indexOf cs sub))" .
    have n: "nat (1 + indexOf cs sub) = Suc (nat (indexOf cs sub))" using r by simp
    have "\<not> occursAt (c # cs) sub 0" using False by (simp add: occursAt_0)
    then show ?thesis using f unfolding e n firstOccurrence_def
      by (auto simp: occursAt_Cons_Suc less_Suc_eq_0_disj)
  qed
qed

lemma indexOf_absent: "indexOf s sub = - 1 \<Longrightarrow> \<not> occursAt s sub j"
proof (induction s arbitrary: j)
  case Nil
  then show ?case by (auto simp: occursAt_def split: if_splits)
next
  case (Cons c cs)
  then have a: "take (length sub) (c # cs) \<noteq> sub" and b: "indexOf cs sub = - 1"
    by (auto simp: Let_def split: if_splits) (use indexOf_range[of cs sub] in auto)
  show ?case
  proof (cases j)
    case 0
    then show ?thesis using a by (simp add: occursAt_0)
  next
    case (Suc k)
    then show ?thesis using Cons.IH[OF b] by (simp add: occursAt_Cons_Suc)
  qed
qed

lemma includes_str_iff: "includes_str s sub \<longleftrightarrow> (\<exists>j. occursAt s sub j)"
proof
  assume "includes_str s sub"
  then have "0 \<le> indexOf s sub" using indexOf_range[of s sub] by (auto simp: includes_str_def)
  from indexOf_first[OF this] show "\<exists>j. occursAt s sub j" by (auto simp: firstOccurrence_def)
next
  assume "\<exists>j. occursAt s sub j"
  then show "includes_str s sub" using indexOf_absent[of s sub] by (auto simp: includes_str_def)
qed

lemma occursAt_append: "occursAt s sub j \<Longrightarrow> occursAt (p @ s) sub (length p + j)"
  by (simp add: occursAt_def)

lemma occursAt_prefix: "occursAt (w @ r) w 0"
  by (simp add: occursAt_def)

lemma split_ws_last:
  "dropWhile (\<lambda>c. \<not> isSpace c) s = [] \<Longrightarrow> split_ws s = [s]"
  by (simp add: split_ws.simps[of s] Let_def takeWhile_eq_all_conv)

lemma split_ws_more:
  "dropWhile (\<lambda>c. \<not> isSpace c) s = c # r \<Longrightarrow>
   split_ws s = takeWhile (\<lambda>c. \<not> isSpace c) s # split_ws (dropWhile isSpace r)"
  by (simp add: split_ws.simps[of s] Let_def)

lemma split_ws_occurs: "w \<in> set (split_ws s) \<Longrightarrow> \<exists>j. occursAt s w j"
proof (induction s rule: split_ws.induct)
  case (1 s)
  define a where "a = takeWhile (\<lambda>c. \<not> isSpace c) s"
  define r where "r = dropWhile (\<lambda>c. \<not> isSpace c) s"
  have s: "s = a @ r" by (simp add: a_def r_def)
  show ?case
  proof (cases r)
    case Nil
    then have "split_ws s = [s]" unfolding r_def by (rule split_ws_last)
    with "1.prems" have "w = s" by simp
    then show ?thesis using occursAt_prefix[of s "[]"] by auto
  next
    case (Cons c r')
    define t where "t = dropWhile isSpace r'"
    have sp: "split_ws s = a # split_ws t"
      unfolding a_def t_def using Cons[unfolded r_def] by (rule split_ws_more)
    have "r' = takeWhile isSpace r' @ t" by (simp add: t_def)
    then have p: "s = (a @ c # takeWhile isSpace r') @ t" using s Cons by simp
    from "1.prems" sp consider "w = a" | "w \<in> set (split_ws t)" by auto
    then show ?thesis
    proof cases
      case 1
      then show ?thesis using occursAt_prefix[of a r] s by auto
    next
      case 2
      have ne: "r \<noteq> []" and tl: "tl r = r'" using Cons by simp_all
      have "\<exists>j. occursAt t w j"
        using "1.IH"[OF a_def r_def ne] 2 unfolding t_def tl by blast
      then obtain j where "occursAt t w j" ..
      from occursAt_append[OF this, of "a @ c # takeWhile isSpace r'"] p show ?thesis by metis
    qed
  qed
qed

lemma split_ws_indexOf: "w \<in> set (split_ws s) \<Longrightarrow> 0 \<le> indexOf s w"
  using split_ws_occurs[of w s] indexOf_absent[of s w] indexOf_range[of s w] by auto

lemma substring_0: "0 \<le> i \<Longrightarrow> i \<le> int (length s) \<Longrightarrow> length (substring s 0 i) = nat i"
  by (auto simp: substring_def Let_def min_def max_def)

section \<open>The match engine\<close>

lemma set_map_filter: "set (List.map_filter f xs) = {y. \<exists>x\<in>set xs. f x = Some y}"
  by (induction xs) (auto split: option.splits)

lemma matchWord_SomeD:
  assumes "matchWord cfg cache cur l n w = Some m"
  shows "rawWord m = w"
    and "owner m \<noteq> cur"
    and "cache (normalize (caseSensitive cfg) w) = Some (owner m)"
    and "\<not> includes_str w (js ''[['')" and "\<not> includes_str w (js '']]'')"
    and "startPos m = \<lparr>line = n, ch = length (substring l 0 (indexOf l w))\<rparr>"
    and "endPos m = \<lparr>line = n, ch = length (substring l 0 (indexOf l w)) + length w\<rparr>"
  using assms
  by (auto simp: matchWord_def normalize_def Let_def split: if_splits option.splits)

lemma findMatches_iff:
  "m \<in> set (findMatches cfg cache cur l n) \<longleftrightarrow>
   (\<exists>w\<in>set (split_ws l). matchWord cfg cache cur l n w = Some m)"
  by (simp add: findMatches_def set_map_filter)

lemma word_offset:
  assumes "w \<in> set (split_ws l)"
  shows "firstOccurrence l w (length (substring l 0 (indexOf l w)))"
proof -
  have i: "0 \<le> indexOf l w" using assms by (rule split_ws_indexOf)
  then have "indexOf l w \<le> int (length l)" using indexOf_range[of l w] by auto
  with i have "length (substring l 0 (indexOf l w)) = nat (indexOf l w)" by (rule substring_0)
  with indexOf_first[OF i] show ?thesis by simp
qed

lemma ex_findMatches:
  "findMatches DEFAULT_SETTINGS (linkCache ex_indexed) (js ''other.md'') (js ''I love banana bread'') 0
   = [ex_match]"
  by code_simp

lemma ex_findMatches_twice:
  "findMatches DEFAULT_SETTINGS (linkCache ex_indexed) (js ''other.md'') (js ''banana banana'') 3
   = [ex_match_twice, ex_match_twice]"
  by code_simp

text \<open>
  C2. No self-links: for every line, index, configuration and current document, a match
  the match engine emits has an owner, the document the index holds for the match's term,
  that differs from the current document.
\<close>

theorem no_self_links:
  assumes "m \<in> set (findMatches cfg cache cur l n)"
  shows "owner m \<noteq> cur \<and> cache (normalize (caseSensitive cfg) (rawWord m)) = Some (owner m)"
proof -
  from assms obtain w where "matchWord cfg cache cur l n w = Some m"
    unfolding findMatches_iff by blast
  from matchWord_SomeD(1,2,3)[OF this] show ?thesis by simp
qed

theorem no_self_links_witness:
  "ex_match \<in> set (findMatches DEFAULT_SETTINGS (linkCache ex_indexed) (js ''other.md'')
                     (js ''I love banana bread'') 0) \<and>
   owner ex_match \<noteq> (js ''other.md'') \<and>
   linkCache ex_indexed (normalize (caseSensitive DEFAULT_SETTINGS) (rawWord ex_match))
   = Some (owner ex_match)"
  using no_self_links[of ex_match DEFAULT_SETTINGS "linkCache ex_indexed" "js ''other.md''"
      "js ''I love banana bread''" 0]
  by (simp add: ex_findMatches)

text \<open>
  C3. Words already referenced are not rewritten again: for every line, index and
  configuration, the raw word of a match the match engine emits contains neither the open
  marker \<open>[[\<close> nor the close marker \<open>]]\<close>.
\<close>

theorem no_relink:
  assumes "m \<in> set (findMatches cfg cache cur l n)"
  shows "\<not> includes_str (rawWord m) (js ''[['') \<and> \<not> includes_str (rawWord m) (js '']]'')"
proof -
  from assms obtain w where "matchWord cfg cache cur l n w = Some m"
    unfolding findMatches_iff by blast
  from matchWord_SomeD(1,4,5)[OF this] show ?thesis by simp
qed

theorem no_relink_witness:
  "ex_match \<in> set (findMatches DEFAULT_SETTINGS (linkCache ex_indexed) (js ''other.md'')
                     (js ''I love banana bread'') 0) \<and>
   \<not> includes_str (rawWord ex_match) (js ''[['') \<and> \<not> includes_str (rawWord ex_match) (js '']]'')"
  using no_relink[of ex_match DEFAULT_SETTINGS "linkCache ex_indexed" "js ''other.md''"
      "js ''I love banana bread''" 0]
  by (simp add: ex_findMatches)

text \<open>
  C9. Every match the match engine emits for a raw word \<open>w\<close> of a line spans
  \<open>[i, i + length w)\<close> on the line's number, where \<open>i\<close> is the offset of the first occurrence
  of the string \<open>w\<close> in the line; so the matches of repeated identical raw words on one line
  all have the same span, at the first occurrence.
\<close>

theorem match_span:
  assumes "m \<in> set (findMatches cfg cache cur l n)"
  shows "\<exists>i. firstOccurrence l (rawWord m) i \<and>
             startPos m = \<lparr>line = n, ch = i\<rparr> \<and>
             endPos m = \<lparr>line = n, ch = i + length (rawWord m)\<rparr> \<and>
             (\<forall>m'\<in>set (findMatches cfg cache cur l n).
                rawWord m' = rawWord m \<longrightarrow> startPos m' = startPos m \<and> endPos m' = endPos m)"
proof -
  from assms obtain w where w: "w \<in> set (split_ws l)" and m: "matchWord cfg cache cur l n w = Some m"
    unfolding findMatches_iff by blast
  note d = matchWord_SomeD(1,6,7)[OF m]
  have same: "startPos m' = startPos m \<and> endPos m' = endPos m"
    if "m' \<in> set (findMatches cfg cache cur l n)" and "rawWord m' = rawWord m" for m'
  proof -
    from that(1) obtain w' where "matchWord cfg cache cur l n w' = Some m'"
      unfolding findMatches_iff by blast
    from matchWord_SomeD(1,6,7)[OF this] d that(2) show ?thesis by simp
  qed
  from word_offset[OF w] d same show ?thesis by auto
qed

theorem match_span_witness:
  "findMatches DEFAULT_SETTINGS (linkCache ex_indexed) (js ''other.md'') (js ''banana banana'') 3
   = [ex_match_twice, ex_match_twice] \<and>
   (\<exists>i. firstOccurrence (js ''banana banana'') (rawWord ex_match_twice) i \<and>
        startPos ex_match_twice = \<lparr>line = 3, ch = i\<rparr> \<and>
        endPos ex_match_twice = \<lparr>line = 3, ch = i + length (rawWord ex_match_twice)\<rparr> \<and>
        (\<forall>m'\<in>set (findMatches DEFAULT_SETTINGS (linkCache ex_indexed) (js ''other.md'')
                      (js ''banana banana'') 3).
           rawWord m' = rawWord ex_match_twice \<longrightarrow>
           startPos m' = startPos ex_match_twice \<and> endPos m' = endPos ex_match_twice))"
  using match_span[of ex_match_twice DEFAULT_SETTINGS "linkCache ex_indexed" "js ''other.md''"
      "js ''banana banana''" 3]
  by (simp add: ex_findMatches_twice)

section \<open>Properties of the term index\<close>

lemma cacheWord_apply:
  "cacheWord cfg p w cache t =
     (if wordFilter cfg w \<and> normalize (caseSensitive cfg) w = t then Some p else cache t)"
  by (auto simp: cacheWord_def wordFilter_def normalize_def Let_def)

lemma fold_cacheWord_apply:
  "fold (cacheWord cfg p) ws cache t =
     (if \<exists>w\<in>set ws. wordFilter cfg w \<and> normalize (caseSensitive cfg) w = t
      then Some p else cache t)"
proof (induction ws arbitrary: cache)
  case Nil
  then show ?case by simp
next
  case (Cons w ws)
  show ?case unfolding fold_simps Cons.IH by (auto simp: cacheWord_apply)
qed

lemma indexedTerms_iff:
  "t \<in> indexedTerms cfg content \<longleftrightarrow>
   (\<exists>w\<in>set (split_ws content). wordFilter cfg w \<and> normalize (caseSensitive cfg) w = t)"
  unfolding indexedTerms_def by (simp add: image_iff) blast

lemma updateLinkCache_apply:
  "linkCache (updateLinkCache content p s) t =
     (if t \<in> indexedTerms (settings s) content then Some p else linkCache s t)"
  unfolding indexedTerms_iff updateLinkCache_def
  by (simp add: fold_cacheWord_apply)

lemma normalize_eq_lower:
  "normalize cs a = normalize cs b \<Longrightarrow>
   toLowerCase (stripPunctuation a) = toLowerCase (stripPunctuation b)"
  by (cases cs) (simp_all add: normalize_def Let_def)

lemma updateLinkCache_settings [simp]: "settings (updateLinkCache content p s) = settings s"
  by (simp add: updateLinkCache_def)

lemma fold_update_settings [simp]:
  "settings (fold (\<lambda>f. updateLinkCache (snd f) (fst f)) files s) = settings s"
  by (induction files arbitrary: s) simp_all

lemma scan_linkCache:
  "linkCache (scanVaultForLinks files s) = linkCache (fold (\<lambda>f. updateLinkCache (snd f) (fst f)) files s)"
  by (simp add: scanVaultForLinks_def Let_def)

lemma fold_update_apply:
  "linkCache (fold (\<lambda>f. updateLinkCache (snd f) (fst f)) files s) t =
     (if filter (\<lambda>f. t \<in> indexedTerms (settings s) (snd f)) files = [] then linkCache s t
      else Some (fst (last (filter (\<lambda>f. t \<in> indexedTerms (settings s) (snd f)) files))))"
proof (induction files rule: rev_induct)
  case Nil
  then show ?case by simp
next
  case (snoc f files)
  show ?case
  proof (cases "t \<in> indexedTerms (settings s) (snd f)")
    case True
    then show ?thesis by (simp add: updateLinkCache_apply)
  next
    case False
    then show ?thesis using snoc by (simp add: updateLinkCache_apply)
  qed
qed

text \<open>
  C4, as the code has it. Last writer wins: for every list of documents scanned in order
  and every term that some word passing the filters of the index update normalizes to, in
  some scanned document, the index after the scan maps the term to the path of the last
  document in scan order that holds such a word. The filters are tested on the cleaned
  word: its length before lower-casing, and its lower-cased form against the ignore list.
\<close>

theorem rebuild_last_writer:
  assumes "\<exists>f\<in>set files. t \<in> indexedTerms (settings s) (snd f)"
  shows "linkCache (scanVaultForLinks files s) t =
         Some (fst (last (filter (\<lambda>f. t \<in> indexedTerms (settings s) (snd f)) files)))"
proof -
  from assms have "filter (\<lambda>f. t \<in> indexedTerms (settings s) (snd f)) files \<noteq> []"
    by (simp add: filter_empty_conv)
  then show ?thesis
    unfolding scan_linkCache fold_update_apply by simp
qed

theorem rebuild_last_writer_witness:
  "(\<exists>f\<in>set ex_vault. js ''banana'' \<in> indexedTerms (settings (ex_loaded [])) (snd f)) \<and>
   linkCache (scanVaultForLinks ex_vault (ex_loaded [])) (js ''banana'') = Some (js ''bread.md'')"
proof -
  have h: "\<exists>f\<in>set ex_vault. js ''banana'' \<in> indexedTerms (settings (ex_loaded [])) (snd f)"
    by code_simp
  have l: "fst (last (filter (\<lambda>f. js ''banana'' \<in> indexedTerms (settings (ex_loaded [])) (snd f))
             ex_vault)) = js ''bread.md''"
    by code_simp
  from rebuild_last_writer[OF h] h l show ?thesis by simp
qed

text \<open>
  The claim C4 as stated, with the filters read on the term, fails. With the default
  settings the word \<open>ex_dotted\<close> has length 2 and is not indexed (the minimum is 3), while
  the term it normalizes to has length 3, passes both filters, and is a term of the scanned
  document: the index has no entry for it.
\<close>

theorem rebuild_last_writer_counterexample:
  "termFilter (settings (ex_loaded [])) ex_dotted_term \<and>
   ex_dotted_term \<notin> set (ignoredWords (settings (ex_loaded []))) \<and>
   normalize (caseSensitive (settings (ex_loaded []))) ex_dotted = ex_dotted_term \<and>
   ex_dotted_term \<in> docTerms (settings (ex_loaded [])) ex_dotted \<and>
   linkCache (scanVaultForLinks [(js ''dotted.md'', ex_dotted)] (ex_loaded [])) ex_dotted_term
   = None"
  by code_simp

text \<open>
  C5, as the code has it. A scan removes nothing: for every prior index and every list of
  documents, the entry of a term that no scanned document holds (after the filters) is
  after the scan what it was before, kept when there was one and absent when there was
  none. So a scan drops no stale entry; only a scan that starts from the empty index leaves
  no entry for such a term.
\<close>

theorem rebuild_keeps_unscanned:
  assumes "\<forall>f\<in>set files. t \<notin> indexedTerms (settings s) (snd f)"
  shows "linkCache (scanVaultForLinks files s) t = linkCache s t"
proof -
  from assms have "filter (\<lambda>f. t \<in> indexedTerms (settings s) (snd f)) files = []"
    by (simp add: filter_empty_conv)
  then show ?thesis unfolding scan_linkCache fold_update_apply by simp
qed

theorem rebuild_keeps_unscanned_witness:
  "\<not> (\<exists>f\<in>set ex_vault_later. (js ''banana'') \<in> indexedTerms (settings ex_indexed) (snd f)) \<and>
   linkCache ex_indexed (js ''banana'') = Some (js ''apple.md'') \<and>
   linkCache (scanVaultForLinks ex_vault_later ex_indexed) (js ''banana'') = linkCache ex_indexed (js ''banana'')"
proof -
  have h: "\<forall>f\<in>set ex_vault_later. (js ''banana'') \<notin> indexedTerms (settings ex_indexed) (snd f)"
    by code_simp
  have c: "linkCache ex_indexed (js ''banana'') = Some (js ''apple.md'')"
    by code_simp
  from rebuild_keeps_unscanned[OF h] h c show ?thesis by simp
qed

text \<open>
  The claim C5 as stated fails: the index built from \<open>apple.md\<close> still maps \<open>banana\<close> to
  \<open>apple.md\<close> after a scan of a vault that holds \<open>new.md\<close> only, in which the term does not
  appear.
\<close>

theorem rebuild_drops_stale_counterexample:
  "(js ''banana'') \<notin> indexedTerms (settings ex_indexed) (js ''apple pie'') \<and>
   linkCache (scanVaultForLinks [(js ''new.md'', js ''apple pie'')] ex_indexed) (js ''banana'')
   = Some (js ''apple.md'')"
  by code_simp

text \<open>
  C8. In the index update the ignore list is compared with the lower-cased cleaned word,
  whatever the case-sensitive flag: for a word whose cleaned, lower-cased form is in the
  ignore list, the loop body leaves the index as it is, and the update of any document
  leaves the entry of the word's key as it was.
\<close>

theorem ignored_never_indexed:
  assumes "toLowerCase (stripPunctuation w) \<in> set (ignoredWords (settings s))"
  shows "cacheWord (settings s) p w cache = cache \<and>
         linkCache (updateLinkCache content p s) (normalize (caseSensitive (settings s)) w)
         = linkCache s (normalize (caseSensitive (settings s)) w)"
proof -
  have "\<not> wordFilter (settings s) w'"
    if "normalize (caseSensitive (settings s)) w' = normalize (caseSensitive (settings s)) w" for w'
    using normalize_eq_lower[OF that] assms by (simp add: wordFilter_def)
  then have "normalize (caseSensitive (settings s)) w \<notin> indexedTerms (settings s) content"
    unfolding indexedTerms_iff by blast
  then show ?thesis using assms by (simp add: updateLinkCache_apply cacheWord_def Let_def)
qed

theorem ignored_never_indexed_witness:
  "caseSensitive (settings ex_sensitive) \<and>
   toLowerCase (stripPunctuation (js ''The'')) \<in> set (ignoredWords (settings ex_sensitive)) \<and>
   cacheWord (settings ex_sensitive) (js ''apple.md'') (js ''The'') Map.empty = Map.empty \<and>
   linkCache (updateLinkCache (js ''The Banana Tree'') (js ''apple.md'') ex_sensitive)
     (normalize (caseSensitive (settings ex_sensitive)) (js ''The''))
   = linkCache ex_sensitive (normalize (caseSensitive (settings ex_sensitive)) (js ''The''))"
proof -
  have c: "caseSensitive (settings ex_sensitive)"
    by code_simp
  have h: "toLowerCase (stripPunctuation (js ''The'')) \<in> set (ignoredWords (settings ex_sensitive))"
    by code_simp
  from ignored_never_indexed[OF h, of "js ''apple.md''" Map.empty "js ''The Banana Tree''"] c h
  show ?thesis by simp
qed

section \<open>Rewriting and undoing\<close>

lemma applyMatch_fields [simp]:
  "settings (applyMatch cur m s) = settings s"
  "linkCache (applyMatch cur m s) = linkCache s"
  "changeHistory (applyMatch cur m s) =
     changeHistory s @ [\<lparr>text' = rawWord m, position = startPos m, file' = cur\<rparr>]"
  "activeFilePath (applyMatch cur m s) = activeFilePath s"
  by (simp_all add: applyMatch_def Let_def activeFilePath_def split: option.splits)

lemma linkWord_fields [simp]:
  "settings (linkWord cur l n w s) = settings s"
  "linkCache (linkWord cur l n w s) = linkCache s"
  by (simp_all add: linkWord_def split: option.splits)

lemma fold_linkWord:
  "fold (linkWord cur l n) ws s =
   fold (applyMatch cur) (List.map_filter (matchWord (settings s) (linkCache s) cur l n) ws) s"
proof (induction ws arbitrary: s)
  case Nil
  then show ?case by simp
next
  case (Cons w ws)
  show ?case
  proof (cases "matchWord (settings s) (linkCache s) cur l n w")
    case None
    then show ?thesis using Cons.IH[of s] by (simp add: linkWord_def)
  next
    case (Some m)
    then show ?thesis using Cons.IH[of "applyMatch cur m s"] by (simp add: linkWord_def)
  qed
qed

lemma processLineForLinks_matches:
  assumes "activeFilePath s = Some cur" and "cur \<noteq> []"
  shows "processLineForLinks l n s =
         fold (applyMatch cur) (findMatches (settings s) (linkCache s) cur l n) s"
  using assms
  by (auto simp: processLineForLinks_def activeFilePath_def findMatches_def fold_linkWord Let_def
           split: option.splits)

lemma processLineForLinks_idle:
  assumes "activeFilePath s = None \<or> activeFilePath s = Some []"
  shows "processLineForLinks l n s = s"
  using assms
  by (auto simp: processLineForLinks_def activeFilePath_def Let_def split: option.splits)

lemma fold_applyMatch_history:
  "changeHistory (fold (applyMatch cur) ms s) =
   changeHistory s @ map (\<lambda>m. \<lparr>text' = rawWord m, position = startPos m, file' = cur\<rparr>) ms"
  by (induction ms arbitrary: s) simp_all

lemma processLineForLinks_history:
  assumes "e \<in> set (changeHistory (processLineForLinks l n s))"
  shows "e \<in> set (changeHistory s) \<or>
         (\<exists>cur m. m \<in> set (findMatches (settings s) (linkCache s) cur l n) \<and> text' e = rawWord m)"
proof (cases "activeFilePath s = None \<or> activeFilePath s = Some []")
  case True
  with assms show ?thesis by (simp add: processLineForLinks_idle)
next
  case False
  then obtain cur where c: "activeFilePath s = Some cur" "cur \<noteq> []" by auto
  from assms have "e \<in> set (changeHistory s) \<or>
      (\<exists>m\<in>set (findMatches (settings s) (linkCache s) cur l n).
         e = \<lparr>text' = rawWord m, position = startPos m, file' = cur\<rparr>)"
    unfolding processLineForLinks_matches[OF c] fold_applyMatch_history by auto
  then show ?thesis
  proof
    assume "e \<in> set (changeHistory s)"
    then show ?thesis ..
  next
    assume "\<exists>m\<in>set (findMatches (settings s) (linkCache s) cur l n).
         e = \<lparr>text' = rawWord m, position = startPos m, file' = cur\<rparr>"
    then obtain m where "m \<in> set (findMatches (settings s) (linkCache s) cur l n)"
      and "text' e = rawWord m" by auto
    then show ?thesis by blast
  qed
qed

lemma undoLastLink_history:
  "changeHistory (undoLastLink s) = butlast (changeHistory s)"
  by (simp add: undoLastLink_def Let_def split: option.splits)

lemma findMatches_unmarked:
  assumes "m \<in> set (findMatches cfg cache cur l n)"
  shows "\<not> includes_str (rawWord m) (js ''[['') \<and> \<not> includes_str (rawWord m) (js '']]'')"
proof -
  from assms obtain w where "matchWord cfg cache cur l n w = Some m"
    unfolding findMatches_iff by blast
  from matchWord_SomeD(1,4,5)[OF this] show ?thesis by simp
qed

lemma relink_line:
  assumes "occursAt L w c"
  shows "take c (take c L @ (js ''[['') @ w @ (js '']]'') @ drop (c + length w) L) @ w @
         drop (c + length w + 4) (take c L @ (js ''[['') @ w @ (js '']]'') @ drop (c + length w) L) = L"
proof -
  from assms have le: "c + length w \<le> length L" and tk: "take (length w) (drop c L) = w"
    by (simp_all add: occursAt_def)
  define a where "a = take c L"
  define r where "r = drop (c + length w) L"
  define p where "p = js ''[['' @ w @ (js '']]'')"
  have la: "length a = c" using le by (simp add: a_def)
  have lp: "length p = length w + 4" by (simp add: p_def js_def)
  have "drop c L = take (length w) (drop c L) @ drop (length w) (drop c L)"
    by (simp only: append_take_drop_id)
  then have d: "drop c L = w @ r" using tk by (simp add: add.commute r_def)
  have "L = a @ drop c L" by (simp add: a_def)
  then have L: "L = a @ w @ r" using d by simp
  have t: "take c (a @ p @ r) = a" using la by simp
  have "drop (c + length w + 4) (a @ p @ r) = drop (length p) (p @ r)"
    using la lp by (simp add: add.assoc)
  then have dr: "drop (c + length w + 4) (a @ p @ r) = r" by simp
  have "take c (a @ p @ r) @ w @ drop (c + length w + 4) (a @ p @ r) = L"
    unfolding t dr using L by simp
  then show ?thesis unfolding a_def r_def p_def by simp
qed

lemma replaceRange_round_trip:
  assumes "n < length doc" and "occursAt (doc ! n) w c"
  shows "replaceRange w \<lparr>line = n, ch = c\<rparr> \<lparr>line = n, ch = c + length w + 4\<rparr>
           (replaceRange ((js ''[['') @ w @ (js '']]'')) \<lparr>line = n, ch = c\<rparr> \<lparr>line = n, ch = c + length w\<rparr> doc)
         = doc"
  using assms(1) relink_line[OF assms(2)] by (simp add: replaceRange_def)

lemma ex_linked_eq: "ex_linked = applyMatch (js ''other.md'') ex_match ex_indexed"
proof -
  have a: "activeFilePath ex_indexed = Some (js ''other.md'')"
    by (simp add: ex_indexed_def scanVaultForLinks_def updateLinkCache_def ex_loaded_def activeFilePath_def Let_def)
  have s: "settings ex_indexed = DEFAULT_SETTINGS"
    by (simp add: ex_indexed_def scanVaultForLinks_def updateLinkCache_def ex_loaded_def Let_def)
  have ne: "js ''other.md'' \<noteq> []"
    by (simp add: js_def)
  show ?thesis
    unfolding ex_linked_def processLineForLinks_matches[OF a ne] s ex_findMatches by simp
qed

text \<open>
  C6. Undo changes the buffer only when the history is not empty and the path of the
  active document is the one stored in the popped entry. On an empty history it changes
  nothing at all. On a non-empty history it removes the last entry, in every case; when
  the active document is another one (or there is none), this is all it does: the buffer
  stays as it is and the entry is not put back.
\<close>

theorem undo_guards:
  "(changeHistory s = [] \<longrightarrow> undoLastLink s = s) \<and>
   (changeHistory s \<noteq> [] \<longrightarrow> changeHistory (undoLastLink s) = butlast (changeHistory s)) \<and>
   (changeHistory s \<noteq> [] \<and> activeFilePath s \<noteq> Some (file' (last (changeHistory s))) \<longrightarrow>
      undoLastLink s = s\<lparr>changeHistory := butlast (changeHistory s)\<rparr>) \<and>
   (activeEditor (undoLastLink s) \<noteq> activeEditor s \<longrightarrow>
      changeHistory s \<noteq> [] \<and> activeFilePath s = Some (file' (last (changeHistory s))))"
  by (auto simp: undoLastLink_def activeFilePath_def activeEditor_def Let_def split: option.splits)

theorem undo_guards_witness:
  "changeHistory (ex_loaded []) = [] \<and> undoLastLink (ex_loaded []) = ex_loaded [] \<and>
   changeHistory ex_switched \<noteq> [] \<and>
   activeFilePath ex_switched \<noteq> Some (file' (last (changeHistory ex_switched))) \<and>
   undoLastLink ex_switched = ex_switched\<lparr>changeHistory := butlast (changeHistory ex_switched)\<rparr> \<and>
   changeHistory (undoLastLink ex_switched) = butlast (changeHistory ex_switched)"
proof -
  have h0: "changeHistory (ex_loaded []) = []"
    by (simp add: ex_loaded_def)
  have h1: "changeHistory ex_switched \<noteq> []"
    by code_simp
  have h2: "activeFilePath ex_switched \<noteq> Some (file' (last (changeHistory ex_switched)))"
    by code_simp
  from undo_guards[of "ex_loaded []"] undo_guards[of ex_switched] h0 h1 h2
  show ?thesis by simp
qed

text \<open>
  When the line of the buffer a match is on holds the raw word at the span of the match,
  the loop body followed at once by an undo, on the same active document, gives back the
  state as it was; only the two notices are added.
\<close>

lemma span_round_trip:
  assumes "activeView s = Some v" and "filePath v = Some cur"
      and "matchWord (settings s) (linkCache s) cur l n w = Some m"
      and "n < length (editor v)"
      and "occursAt (editor v ! n) w (ch (startPos m))"
  shows "undoLastLink (linkWord cur l n w s) = s\<lparr>notices := notices s @ [Linked w (owner m), Undid]\<rparr>"
proof -
  note d = matchWord_SomeD(1,6,7)[OF assms(3)]
  define c where "c = ch (startPos m)"
  have sp: "startPos m = \<lparr>line = n, ch = c\<rparr>" and ep: "endPos m = \<lparr>line = n, ch = c + length w\<rparr>"
    using d by (simp_all add: c_def)
  have rt: "replaceRange w \<lparr>line = n, ch = c\<rparr> \<lparr>line = n, ch = c + length w + 4\<rparr>
           (replaceRange (js ''[['' @ w @ js '']]'') \<lparr>line = n, ch = c\<rparr> \<lparr>line = n, ch = c + length w\<rparr> (editor v))
         = editor v"
    using assms(4,5) unfolding c_def[symmetric] by (rule replaceRange_round_trip)
  have "linkWord cur l n w s = applyMatch cur m s" using assms(3) by (simp add: linkWord_def)
  then show ?thesis
    using assms(1,2) d(1) sp ep rt
    by (simp add: applyMatch_def undoLastLink_def Let_def)
qed

text \<open>
  C1. Applying a match and undoing it at once, on the same active document and with no
  edit in between, is to give back the buffer as it was before the match and to remove the
  pushed history entry. The code removes the entry but does not give back the buffer for
  the second match of a line: the span of a match is computed on the line as it was passed
  in (line 146), while the replacement of the first match has already moved the text of the
  buffer (line 167). For the line \<open>apple banana\<close> of \<open>other.md\<close>, both words indexed, the loop
  turns the buffer into \<open>[[appl[[banana]]nana\<close>. Before the second match the buffer is
  \<open>[[apple]] banana\<close>; after the second match and its undo it is \<open>[[applbanananana\<close>.
\<close>

theorem second_link_undo_garbled:
  "activeEditor ex_fruit = Some [js ''apple banana''] \<and>
   activeFilePath ex_fruit = Some (js ''other.md'') \<and>
   activeEditor (processLineForLinks (js ''apple banana'') 0 ex_fruit)
   = Some [js ''[[appl[[banana]]nana''] \<and>
   activeEditor ex_fruit_first = Some [js ''[[apple]] banana''] \<and>
   matchWord (settings ex_fruit_first) (linkCache ex_fruit_first) (js ''other.md'')
     (js ''apple banana'') 0 (js ''banana'')
   = Some \<lparr>rawWord = js ''banana'', owner = js ''fruit.md'',
            startPos = \<lparr>line = 0, ch = 6\<rparr>, endPos = \<lparr>line = 0, ch = 12\<rparr>\<rparr> \<and>
   changeHistory (undoLastLink (linkWord (js ''other.md'') (js ''apple banana'') 0 (js ''banana'')
     ex_fruit_first)) = changeHistory ex_fruit_first \<and>
   activeEditor (undoLastLink (linkWord (js ''other.md'') (js ''apple banana'') 0 (js ''banana'')
     ex_fruit_first)) = Some [js ''[[applbanananana''] \<and>
   activeEditor (undoLastLink (linkWord (js ''other.md'') (js ''apple banana'') 0 (js ''banana'')
     ex_fruit_first)) \<noteq> activeEditor ex_fruit_first \<and>
   activeEditor (undoLastLink (processLineForLinks (js ''apple banana'') 0 ex_fruit))
   = Some [js ''[[applbanananana'']"
  by code_simp

text \<open>
  C10. In every state reachable from an empty history by processing lines, undoing, and
  steps that leave the history alone, no history entry's text contains the marker \<open>[[\<close> or
  the marker \<open>]]\<close>: an entry is pushed for a raw word that passed the marker check only. The
  text an undo writes is the text of the last entry, so it contains no marker either.
\<close>

theorem history_unmarked:
  assumes "reachable s" and "e \<in> set (changeHistory s)"
  shows "\<not> includes_str (text' e) (js ''[['') \<and> \<not> includes_str (text' e) (js '']]'')"
  using assms
proof (induction arbitrary: e rule: reachable.induct)
  case (start s)
  then show ?case by simp
next
  case (rewrite s lineText lineNumber)
  from processLineForLinks_history[OF rewrite.prems] show ?case
  proof
    assume "e \<in> set (changeHistory s)"
    then show ?thesis by (rule rewrite.IH)
  next
    assume "\<exists>cur m. m \<in> set (findMatches (settings s) (linkCache s) cur lineText lineNumber) \<and>
                     text' e = rawWord m"
    then show ?thesis using findMatches_unmarked by metis
  qed
next
  case (undo s)
  then have "e \<in> set (changeHistory s)"
    by (auto simp: undoLastLink_history dest: in_set_butlastD)
  then show ?case by (rule undo.IH)
next
  case (other s s')
  then show ?case by simp
qed

theorem history_unmarked_witness:
  "reachable ex_linked \<and> ex_entry \<in> set (changeHistory ex_linked) \<and>
   \<not> includes_str (text' ex_entry) (js ''[['') \<and> \<not> includes_str (text' ex_entry) (js '']]'')"
proof -
  have "changeHistory ex_indexed = []"
    by code_simp
  then have "reachable ex_indexed"
    by (rule reachable.start)
  then have r: "reachable ex_linked"
    unfolding ex_linked_def by (rule reachable.rewrite)
  have e: "ex_entry \<in> set (changeHistory ex_linked)"
    by code_simp
  from history_unmarked[OF r e] r e show ?thesis by simp
qed

end
